theory Spec2Isabelle
  imports Complex_Main "HOL-Library.Log_Nat" "HOL-Library.List_Lexorder" "HOL-Library.Char_ord"
    "HOL-Library.Multiset"
begin

section \<open>Lagerverwaltung: the application logic of the inventory intake tracker\<close>

text \<open>
  The development follows the single script of the repository (the file that
  opens with the comment ``Lagerverwaltung -- App Logic''): the utilities
  \<^verbatim>\<open>U\<close>, the IndexedDB wrapper \<^verbatim>\<open>DB\<close>, the camera and image tools
  \<^verbatim>\<open>Camera\<close> and the UI layer \<^verbatim>\<open>UI\<close>.

  Conventions of the embedding.
  \<^item> A JavaScript string is a \<^typ>\<open>string\<close>. The model is exact for strings of
    ASCII characters; a character outside ASCII is carried along unchanged
    (it is neither white space nor a letter with an upper case form here).
  \<^item> Every \<^verbatim>\<open>async\<close> function runs to completion before the next one starts:
    the model is sequential, one event handler at a time.
  \<^item> Values the environment supplies (\<^verbatim>\<open>U.uuid()\<close>, \<^verbatim>\<open>new Date()\<close>,
    \<^verbatim>\<open>App.userId()\<close>, the state of a form field, the answer of a dialog, the
    browser's JPEG encoder) are parameters of the function that reads them.
  \<^item> The browser's database is modelled as section 4.1 of the specification
    describes the store; the script's handlers are read as written against
    that store (a read yields the record, a dialog yields its answer).
\<close>

subsection \<open>Small utilities (\<^verbatim>\<open>U\<close>)\<close>


text \<open>
  The class \<^verbatim>\<open>\s\<close> of a JavaScript regular expression, on ASCII: tab, line
  feed, vertical tab, form feed, carriage return and space.
\<close>

definition is_space :: "char \<Rightarrow> bool" where
  "is_space c = (c \<in> {CHR 0x09, CHR 0x0A, CHR 0x0B, CHR 0x0C, CHR 0x0D, CHR 0x20})"






text \<open>\<^verbatim>\<open>String(n)\<close> for a natural number, and \<^verbatim>\<open>padStart(3, "0")\<close>.\<close>

definition digit_char :: "nat \<Rightarrow> char" where
  "digit_char d = ''0123456789'' ! d"

fun String_of_nat :: "nat \<Rightarrow> string" where
  "String_of_nat n =
     (if n < 10 then [digit_char n] else String_of_nat (n div 10) @ [digit_char (n mod 10)])"

declare String_of_nat.simps [simp del]

definition padStart :: "nat \<Rightarrow> char \<Rightarrow> string \<Rightarrow> string" where
  "padStart n c s = replicate (n - length s) c @ s"

text \<open>\<^verbatim>\<open>replaceAll("-", "/")\<close>\<close>

definition replaceAll_dash_slash :: "string \<Rightarrow> string" where
  "replaceAll_dash_slash s = map (\<lambda>c. if c = CHR ''-'' then CHR ''/'' else c) s"

subsection \<open>The data model\<close>

text \<open>
  The records the script stores. The status of a document is one of the two
  strings \<^verbatim>\<open>"ohne_zeichnung"\<close> (awaiting the drawing) and \<^verbatim>\<open>"mit_zeichnung"\<close>
  (drawing attached). Integer-valued Numbers (page numbers, pixel sizes,
  quantities) are \<^typ>\<open>nat\<close> or \<^typ>\<open>int\<close>: JavaScript computes exactly on
  integers below \<open>2 ^ 53\<close>.
\<close>

datatype status = ohne_zeichnung | mit_zeichnung

record inbound_doc =
  doc_id :: string
  ls_nr :: string
  ls_nr_normalized :: string
  supplier :: string
  date_doc :: string
  status :: status
  created_at :: string
  created_by :: string
  updated_at :: "string option"
  updated_by :: "string option"

text \<open>
  A JPEG blob, as far as the script observes it: its bytes (\<^verbatim>\<open>blob.size\<close> is
  their number) and the pixel size \<^verbatim>\<open>createImageBitmap\<close> decodes from it.
\<close>

record blob =
  blob_bytes :: "nat list"
  blob_width :: nat
  blob_height :: nat

record inbound_image =
  img_id :: string
  inbound_id :: string
  page_no :: nat
  mime_type :: string
  width_px :: nat
  height_px :: nat
  size_bytes :: nat
  sha256 :: string
  storage_uri :: string
  img_created_at :: string
  img_created_by :: string
  synced :: bool
  img_blob :: blob

record dnd_item =
  item_id :: string
  item_name :: string
  item_zone :: string
  item_qty :: int
  item_note :: string

record log_entry =
  log_id :: string
  log_action :: string
  log_inbound_id :: "string option"
  log_image_id :: "string option"
  log_user :: string
  log_ts :: string

text \<open>
  The database: one list of records per object store (the stores \<^verbatim>\<open>cart\<close> and
  \<^verbatim>\<open>settings\<close> are left out, no claim reads them). A list holds the records in
  the order a cursor visits them.
\<close>

record db =
  inbound_docs :: "inbound_doc list"
  inbound_images :: "inbound_image list"
  dnd_items :: "dnd_item list"
  logs :: "log_entry list"

text \<open>
  What a handler reads from its environment: the values \<^verbatim>\<open>U.uuid()\<close> returns
  (\<open>uuid env k\<close> is the value of the \<open>k\<close>-th call the handler makes, counted
  from 0), the clock (\<^verbatim>\<open>new Date().toISOString()\<close>) and \<^verbatim>\<open>App.userId()\<close>.
\<close>

record env =
  uuid :: "nat \<Rightarrow> string"
  now :: string
  userId :: string

subsection \<open>The object stores (\<^verbatim>\<open>DB\<close>)\<close>

text \<open>
  Modelled from the spec: the object store of the browser (IndexedDB), which
  the script calls and does not contain. Section 4.1 of the specification:
  \<^verbatim>\<open>add\<close> fails if the key exists, \<^verbatim>\<open>put\<close> is an upsert, \<^verbatim>\<open>get\<close> hands back the
  record stored under a key, \<^verbatim>\<open>delete\<close> removes the key, and a write that would
  give a unique index two records with one key fails. The wrapper \<^verbatim>\<open>DB\<close> opens
  one transaction per call and handles no failure: a failed write leaves the
  store as it was. (No theorem below rests on what a handler does after a
  failed write: under their hypotheses every write succeeds.)
\<close>

definition os_add :: "('a \<Rightarrow> string) \<Rightarrow> 'a \<Rightarrow> 'a list \<Rightarrow> 'a list" where
  "os_add key x xs = (if list_ex (\<lambda>y. key y = key x) xs then xs else xs @ [x])"

definition os_put :: "('a \<Rightarrow> string) \<Rightarrow> 'a \<Rightarrow> 'a list \<Rightarrow> 'a list" where
  "os_put key x xs =
     (if list_ex (\<lambda>y. key y = key x) xs
      then map (\<lambda>y. if key y = key x then x else y) xs
      else xs @ [x])"

definition os_delete :: "('a \<Rightarrow> string) \<Rightarrow> string \<Rightarrow> 'a list \<Rightarrow> 'a list" where
  "os_delete key k xs = filter (\<lambda>y. key y \<noteq> k) xs"


text \<open>
  The index \<^verbatim>\<open>by_inbound_page\<close> on \<^verbatim>\<open>["inbound_id", "page_no"]\<close> is declared
  \<^verbatim>\<open>unique: true\<close>: a write is refused when another record (another \<^verbatim>\<open>id\<close>)
  holds the same pair.
\<close>

definition by_inbound_page_free :: "inbound_image \<Rightarrow> inbound_image list \<Rightarrow> bool" where
  "by_inbound_page_free img imgs =
     (\<not> list_ex (\<lambda>y. img_id y \<noteq> img_id img \<and> inbound_id y = inbound_id img \<and>
                      page_no y = page_no img) imgs)"





text \<open>
  \<^verbatim>\<open>out.sort((a, b) => (a.created_at || "").localeCompare(b.created_at || ""))\<close>:
  a stable sort; on time stamps of one format \<^verbatim>\<open>localeCompare\<close> is the
  lexicographic order.
\<close>

definition listInboundByStatus :: "status \<Rightarrow> db \<Rightarrow> inbound_doc list" where
  "listInboundByStatus s st = sort_key created_at (filter (\<lambda>d. status d = s) (inbound_docs st))"

definition addImage :: "inbound_image \<Rightarrow> db \<Rightarrow> db" where
  "addImage img st =
     (if by_inbound_page_free img (inbound_images st)
      then st\<lparr>inbound_images := os_add img_id img (inbound_images st)\<rparr>
      else st)"

definition putImage :: "inbound_image \<Rightarrow> db \<Rightarrow> db" where
  "putImage img st =
     (if by_inbound_page_free img (inbound_images st)
      then st\<lparr>inbound_images := os_put img_id img (inbound_images st)\<rparr>
      else st)"

text \<open>\<^verbatim>\<open>out.sort((a, b) => a.page_no - b.page_no)\<close> after the index scan.\<close>

definition listImages :: "string \<Rightarrow> db \<Rightarrow> inbound_image list" where
  "listImages i st = sort_key page_no (filter (\<lambda>im. inbound_id im = i) (inbound_images st))"

definition countImages :: "string \<Rightarrow> db \<Rightarrow> nat" where
  "countImages i st = length (filter (\<lambda>im. inbound_id im = i) (inbound_images st))"

definition deleteImage :: "string \<Rightarrow> db \<Rightarrow> db" where
  "deleteImage i st = st\<lparr>inbound_images := os_delete img_id i (inbound_images st)\<rparr>"




definition deleteItem :: "string \<Rightarrow> db \<Rightarrow> db" where
  "deleteItem i st = st\<lparr>dnd_items := os_delete item_id i (dnd_items st)\<rparr>"

text \<open>
  \<^verbatim>\<open>addLog(log)\<close> adds \<^verbatim>\<open>{ id: U.uuid(), ...log, ts: new Date().toISOString() }\<close>;
  \<open>k\<close> says which call of \<^verbatim>\<open>U.uuid()\<close> this is in the running handler.
\<close>

definition addLog :: "env \<Rightarrow> nat \<Rightarrow> string \<Rightarrow> string option \<Rightarrow> string option \<Rightarrow> db \<Rightarrow> db" where
  "addLog e k act inbound img st =
     st\<lparr>logs := os_add log_id
        \<lparr>log_id = uuid e k, log_action = act, log_inbound_id = inbound,
         log_image_id = img, log_user = userId e, log_ts = now e\<rparr> (logs st)\<rparr>"

subsection \<open>The camera (\<^verbatim>\<open>Camera\<close>): saving the captured pages\<close>

text \<open>
  A capture is \<^verbatim>\<open>{ blob, w, h, sha256 }\<close>. The state of the camera dialog is
  \<^verbatim>\<open>{ inboundId, stream, captures }\<close>; \<open>stream\<close> says whether a video stream is
  open.
\<close>

record capture =
  cap_blob :: blob
  cap_w :: nat
  cap_h :: nat
  cap_sha256 :: string

record camera =
  inboundId :: string
  stream :: bool
  captures :: "capture list"

definition storage_uri_of :: "env \<Rightarrow> string \<Rightarrow> nat \<Rightarrow> string" where
  "storage_uri_of e inb page =
     ''blob://inbound/'' @ replaceAll_dash_slash (take 10 (now e)) @ ''/'' @ inb @ ''/p'' @
     padStart 3 (CHR ''0'') (String_of_nat page) @ ''.jpg''"

text \<open>
  The body of the loop of \<^verbatim>\<open>saveAll\<close>, for the capture \<open>cap\<close>, with \<open>page\<close> already
  incremented; \<open>k\<close> counts the iterations, each of which calls \<^verbatim>\<open>U.uuid()\<close>
  twice (for the image, then inside \<^verbatim>\<open>addLog\<close>).
\<close>

definition new_image :: "env \<Rightarrow> string \<Rightarrow> nat \<Rightarrow> nat \<Rightarrow> capture \<Rightarrow> inbound_image" where
  "new_image e inb k page cap =
     \<lparr>img_id = uuid e (2 * k), inbound_id = inb, page_no = page,
      mime_type = ''image/jpeg'',
      width_px = cap_w cap, height_px = cap_h cap,
      size_bytes = length (blob_bytes (cap_blob cap)),
      sha256 = cap_sha256 cap, storage_uri = storage_uri_of e inb page,
      img_created_at = now e, img_created_by = userId e,
      synced = False, img_blob = cap_blob cap\<rparr>"

definition saveAll_body :: "env \<Rightarrow> string \<Rightarrow> nat \<Rightarrow> nat \<Rightarrow> capture \<Rightarrow> db \<Rightarrow> db" where
  "saveAll_body e inb k page cap st =
     addLog e (2 * k + 1) ''add_image'' (Some inb) (Some (uuid e (2 * k)))
       (addImage (new_image e inb k page cap) st)"

fun saveAll_loop :: "env \<Rightarrow> string \<Rightarrow> nat \<Rightarrow> nat \<Rightarrow> capture list \<Rightarrow> db \<Rightarrow> db" where
  "saveAll_loop e inb k page [] st = st"
| "saveAll_loop e inb k page (cap # caps) st =
     saveAll_loop e inb (k + 1) (page + 1) caps (saveAll_body e inb k (page + 1) cap st)"

text \<open>
  \<^verbatim>\<open>let page = existing.length ? Math.max(...existing.map(i => i.page_no)) : 0\<close>,
  then the loop, then \<^verbatim>\<open>state.captures = []\<close>.
\<close>

definition saveAll :: "env \<Rightarrow> camera \<Rightarrow> db \<Rightarrow> camera \<times> db" where
  "saveAll e cam st =
     (let existing = listImages (inboundId cam) st;
          page = (if existing \<noteq> [] then Max (set (map page_no existing)) else 0)
      in (cam\<lparr>captures := []\<rparr>, saveAll_loop e (inboundId cam) 0 page (captures cam) st))"

text \<open>The ids \<^verbatim>\<open>saveAll\<close> draws for the images of \<open>n\<close> captures.\<close>

definition image_uuids :: "env \<Rightarrow> nat \<Rightarrow> string list" where
  "image_uuids e n = map (\<lambda>k. uuid e (2 * k)) [0..<n]"

text \<open>
  The largest page number stored for a document, 0 when it has no page: what
  the claims call the current maximum.
\<close>

definition max_page_no :: "string \<Rightarrow> db \<Rightarrow> nat" where
  "max_page_no i st =
     Max (insert 0 (page_no ` {im \<in> set (inbound_images st). inbound_id im = i}))"

subsection \<open>Numbers: the rounding of JavaScript's arithmetic\<close>





subsection \<open>The camera: capturing and validating a photo\<close>











subsection \<open>The UI layer (\<^verbatim>\<open>UI\<close>): managing the pages of a document\<close>

text \<open>
  \<^verbatim>\<open>manageImages(doc)\<close> reads the pages of the document once, into the array
  \<^verbatim>\<open>imgs\<close> its handlers close over, and keeps the selected index \<^verbatim>\<open>sel\<close>
  (\<open>-1\<close>: nothing selected). The records of \<^verbatim>\<open>imgs\<close> are copies: the database
  changes only through \<^verbatim>\<open>DB\<close>.
\<close>

record manage =
  m_doc :: inbound_doc
  imgs :: "inbound_image list"
  sel :: int

text \<open>\<^verbatim>\<open>render()\<close> sorts \<^verbatim>\<open>imgs\<close> in place by \<^verbatim>\<open>page_no\<close> and redraws the thumbs.\<close>

definition render :: "manage \<Rightarrow> manage" where
  "render m = m\<lparr>imgs := sort_key page_no (imgs m)\<rparr>"

definition manageImages :: "inbound_doc \<Rightarrow> db \<Rightarrow> manage" where
  "manageImages doc st = render \<lparr>m_doc = doc, imgs = listImages (doc_id doc) st, sel = - 1\<rparr>"

text \<open>A click on the \<open>i\<close>-th thumb: \<^verbatim>\<open>sel = i; render()\<close>. Only drawn thumbs exist.\<close>

definition thumb_click :: "nat \<Rightarrow> manage \<Rightarrow> manage" where
  "thumb_click i m = (if i < length (imgs m) then render (m\<lparr>sel := int i\<rparr>) else m)"

text \<open>\<^verbatim>\<open>let p = 1; for (const im of imgs) { im.page_no = p++; await DB.putImage(im); }\<close>\<close>

fun renumber :: "nat \<Rightarrow> inbound_image list \<Rightarrow> db \<Rightarrow> inbound_image list \<times> db" where
  "renumber p [] st = ([], st)"
| "renumber p (im # ims) st =
     (let im' = im\<lparr>page_no := p\<rparr>;
          r = renumber (p + 1) ims (putImage im' st)
      in (im' # fst r, snd r))"

text \<open>
  The handler of the button \<^verbatim>\<open>#btnDelete\<close>. With an index outside \<^verbatim>\<open>imgs\<close> the
  read \<^verbatim>\<open>imgs[sel].id\<close> throws, and the handler ends there.
\<close>

definition btnDelete :: "env \<Rightarrow> manage \<Rightarrow> db \<Rightarrow> manage \<times> db" where
  "btnDelete e m st =
     (if sel m < 0 then (m, st)
      else if length (imgs m) \<le> nat (sel m) then (m, st)
      else
        let i = img_id (imgs m ! nat (sel m));
            st1 = deleteImage i st;
            st2 = addLog e 0 ''delete_image'' (Some (doc_id (m_doc m))) (Some i) st1;
            rest = take (nat (sel m)) (imgs m) @ drop (nat (sel m) + 1) (imgs m);
            r = renumber 1 rest st2
        in (render (m\<lparr>imgs := fst r, sel := - 1\<rparr>), snd r))"

text \<open>
  The handlers of \<^verbatim>\<open>#btnReorderUp\<close> and \<^verbatim>\<open>#btnReorderDown\<close>: the two neighbours
  swap their page numbers, and both are written back.
\<close>

definition swap_pages :: "env \<Rightarrow> nat \<Rightarrow> nat \<Rightarrow> manage \<Rightarrow> db \<Rightarrow> inbound_image list \<times> db" where
  "swap_pages e a b m st =
     (let x = (imgs m ! a)\<lparr>page_no := page_no (imgs m ! b)\<rparr>;
          y = (imgs m ! b)\<lparr>page_no := page_no (imgs m ! a)\<rparr>;
          st1 = putImage y (putImage x st)
      in ((imgs m)[a := x, b := y],
          addLog e 0 ''reorder_images'' (Some (doc_id (m_doc m))) None st1))"

definition btnReorderUp :: "env \<Rightarrow> manage \<Rightarrow> db \<Rightarrow> manage \<times> db" where
  "btnReorderUp e m st =
     (if sel m \<le> 0 then (m, st)
      else if length (imgs m) \<le> nat (sel m) then (m, st)
      else
        let r = swap_pages e (nat (sel m) - 1) (nat (sel m)) m st
        in (render (m\<lparr>imgs := fst r, sel := sel m - 1\<rparr>), snd r))"

definition btnReorderDown :: "env \<Rightarrow> manage \<Rightarrow> db \<Rightarrow> manage \<times> db" where
  "btnReorderDown e m st =
     (if sel m < 0 \<or> int (length (imgs m)) - 1 \<le> sel m then (m, st)
      else
        let r = swap_pages e (nat (sel m) + 1) (nat (sel m)) m st
        in (render (m\<lparr>imgs := fst r, sel := sel m + 1\<rparr>), snd r))"

subsection \<open>The UI layer: the sync badge\<close>

text \<open>
  \<^verbatim>\<open>bumpSyncBadge(auto)\<close>: the documents of both statuses are listed, and the
  pages of each that have \<^verbatim>\<open>synced: false\<close> are counted. With \<^verbatim>\<open>auto\<close>, the
  browser online and a count other than 0, every such page is marked and
  written back, and the badge shows 0. The result is the number the badge
  shows at the end, and the database.
\<close>

definition pending_of :: "inbound_doc list \<Rightarrow> db \<Rightarrow> nat" where
  "pending_of ds st =
     sum_list (map (\<lambda>d. length (filter (\<lambda>i. \<not> synced i) (listImages (doc_id d) st))) ds)"

fun sync_images :: "inbound_image list \<Rightarrow> db \<Rightarrow> db" where
  "sync_images [] st = st"
| "sync_images (im # ims) st =
     sync_images ims (if \<not> synced im then putImage (im\<lparr>synced := True\<rparr>) st else st)"

fun sync_docs :: "inbound_doc list \<Rightarrow> db \<Rightarrow> db" where
  "sync_docs [] st = st"
| "sync_docs (d # ds) st = sync_docs ds (sync_images (listImages (doc_id d) st) st)"

definition bumpSyncBadge :: "bool \<Rightarrow> bool \<Rightarrow> db \<Rightarrow> nat \<times> db" where
  "bumpSyncBadge auto online st =
     (let ohne = listInboundByStatus ohne_zeichnung st;
          mit = listInboundByStatus mit_zeichnung st;
          all = ohne @ mit;
          pending = pending_of all st
      in if auto \<and> online \<and> pending \<noteq> 0 then (0, sync_docs all st) else (pending, st))"

subsection \<open>The UI layer: creating a document\<close>






subsection \<open>The UI layer: moving items on the board\<close>

text \<open>
  \<^verbatim>\<open>parseInt(s, 10)\<close>: leading white space, a sign, then the longest run of
  decimal digits; \<open>None\<close> is \<^verbatim>\<open>NaN\<close>.
\<close>

definition is_digit :: "char \<Rightarrow> bool" where
  "is_digit c = (c \<in> set ''0123456789'')"

definition digit_value :: "char \<Rightarrow> nat" where
  "digit_value c = (case map_of (zip ''0123456789'' [0, 1, 2, 3, 4, 5, 6, 7, 8, 9]) c of
                      Some d \<Rightarrow> d | None \<Rightarrow> 0)"

definition nat_of_digits :: "string \<Rightarrow> nat" where
  "nat_of_digits ds = foldl (\<lambda>n c. 10 * n + digit_value c) 0 ds"

definition parseInt :: "string \<Rightarrow> int option" where
  "parseInt s =
     (let t = dropWhile is_space s;
          neg = (t \<noteq> [] \<and> hd t = CHR ''-'');
          u = (if t \<noteq> [] \<and> (hd t = CHR ''-'' \<or> hd t = CHR ''+'') then tl t else t);
          ds = takeWhile is_digit u
      in if ds = [] then None
         else Some (if neg then - int (nat_of_digits ds) else int (nat_of_digits ds)))"

text \<open>
  What the \<^verbatim>\<open>drop\<close> handler reads from the event, the zone and the page: the id
  the drag carries, the zone's \<^verbatim>\<open>data-zone\<close>, whether its \<^verbatim>\<open>data-ask-partial\<close> is
  \<^verbatim>\<open>"1"\<close>, the Alt key, the check box \<^verbatim>\<open>#toggleAskPartial\<close>, and what the prompt
  dialog returns if it is shown.
\<close>

record drop_event =
  dragged_id :: string
  target_zone :: string
  zone_askPartial :: bool
  altKey :: bool
  toggleAskPartial :: bool
  prompt_result :: string
  prompt_value :: string


text \<open>
  The quantity to move: the whole item, or with the prompt
  \<^verbatim>\<open>Math.max(0, Math.min(item.qty, parseInt(v.value || "0", 10) || 0))\<close>; \<open>None\<close> when
  the handler returns without moving (the prompt was cancelled, or the number
  is not positive).
\<close>

definition drop_qty :: "drop_event \<Rightarrow> dnd_item \<Rightarrow> int option" where
  "drop_qty ev item =
     (let ask = (toggleAskPartial ev \<or> zone_askPartial ev)
      in if ask \<and> (altKey ev \<or> zone_askPartial ev)
         then if prompt_result ev \<noteq> ''ok'' then None
              else
                let parsed = (case parseInt (if prompt_value ev = [] then ''0'' else prompt_value ev) of
                                None \<Rightarrow> 0 | Some v \<Rightarrow> v);
                    n = max 0 (min (item_qty item) parsed)
                in if n \<le> 0 then None else Some n
         else Some (item_qty item))"


subsection \<open>The normalised number of the specification\<close>



subsection \<open>What the browser's store guarantees, and the counts of the claims\<close>

text \<open>
  In an object store no two records share a key, and in the unique index no two
  share the pair of document and page number.
\<close>

definition images_wf :: "db \<Rightarrow> bool" where
  "images_wf st =
     (distinct (map img_id (inbound_images st)) \<and>
      distinct (map (\<lambda>i. (inbound_id i, page_no i)) (inbound_images st)))"

definition docs_wf :: "db \<Rightarrow> bool" where
  "docs_wf st = distinct (map doc_id (inbound_docs st))"

text \<open>
  The number of page records with \<^verbatim>\<open>synced: false\<close> across the stored documents,
  counted over the records.
\<close>

definition unsynced_pages :: "db \<Rightarrow> nat" where
  "unsynced_pages st =
     length (filter (\<lambda>i. \<not> synced i \<and> inbound_id i \<in> doc_id ` set (inbound_docs st))
               (inbound_images st))"

text \<open>The records that satisfy \<open>P\<close> get \<^verbatim>\<open>synced: true\<close>; nothing else changes.\<close>

definition mark :: "(inbound_image \<Rightarrow> bool) \<Rightarrow> inbound_image list \<Rightarrow> inbound_image list" where
  "mark P xs = map (\<lambda>y. if P y then y\<lparr>synced := True\<rparr> else y) xs"





subsection \<open>Example values\<close>

text \<open>Concrete environments, records and states the theorems below are run on.\<close>

definition env_a :: env where
  "env_a = \<lparr>uuid = (\<lambda>k. ''a-'' @ String_of_nat k), now = ''2024-01-01T08:00:00.000Z'',
            userId = ''user-1''\<rparr>"


definition env_c :: env where
  "env_c = \<lparr>uuid = (\<lambda>k. ''c-'' @ String_of_nat k), now = ''2024-01-01T10:00:00.000Z'',
            userId = ''user-1''\<rparr>"

definition doc1 :: inbound_doc where
  "doc1 = \<lparr>doc_id = ''doc-1'', ls_nr = ''A-100'', ls_nr_normalized = ''A100'', supplier = ''X'',
           date_doc = ''2024-01-01'', status = ohne_zeichnung,
           created_at = ''2024-01-01T07:00:00.000Z'', created_by = ''user-1'',
           updated_at = None, updated_by = None\<rparr>"


definition db1 :: db where
  "db1 = \<lparr>inbound_docs = [doc1], inbound_images = [], dnd_items = [], logs = []\<rparr>"

definition cap1 :: capture where
  "cap1 = \<lparr>cap_blob = \<lparr>blob_bytes = [255, 216, 255], blob_width = 2000, blob_height = 1500\<rparr>,
           cap_w = 2000, cap_h = 1500, cap_sha256 = ''9f86d081''\<rparr>"


definition cam3 :: camera where
  "cam3 = \<lparr>inboundId = ''doc-1'', stream = True, captures = [cap1, cap1, cap1]\<rparr>"



definition db_three_pages :: db where
  "db_three_pages = snd (saveAll env_a cam3 db1)"











subsection \<open>Facts about the utilities\<close>

















subsection \<open>Claims about the normalisation\<close>


subsection \<open>Attaching pages: \<^verbatim>\<open>Camera.saveAll\<close>\<close>

lemma Max_insert0: "finite A \<Longrightarrow> Max (insert (a::nat) A) = max a (Max (insert 0 A))"
  by (cases "A = {}") simp_all

lemma set_listImages: "set (listImages i st) = {im \<in> set (inbound_images st). inbound_id im = i}"
  by (auto simp: listImages_def)

lemma saveAll_page_start:
  "(if listImages i st \<noteq> [] then Max (set (map page_no (listImages i st))) else 0)
     = max_page_no i st"
proof -
  define S where "S = page_no ` {im \<in> set (inbound_images st). inbound_id im = i}"
  have fin: "finite S" by (simp add: S_def)
  have S: "set (map page_no (listImages i st)) = S"
    by (simp add: S_def set_listImages)
  have m: "max_page_no i st = Max (insert 0 S)"
    by (simp add: max_page_no_def S_def)
  show ?thesis
  proof (cases "listImages i st = []")
    case True
    with S have "S = {}" by simp
    with True m show ?thesis by simp
  next
    case False
    with S have "S \<noteq> {}" by auto
    with fin have "Max (insert 0 S) = Max S" by simp
    with False m S show ?thesis by simp
  qed
qed

lemma logs_only [simp]: "inbound_images (addLog e k a i j st) = inbound_images st"
  by (simp add: addLog_def)

lemma max_page_no_addLog [simp]: "max_page_no i (addLog e k a x y st) = max_page_no i st"
  by (simp add: max_page_no_def)

lemma page_le_max: "im \<in> set (inbound_images st) \<Longrightarrow> inbound_id im = i \<Longrightarrow> page_no im \<le> max_page_no i st"
  by (auto simp: max_page_no_def intro!: Max_ge)

lemma body_images:
  assumes "uuid e (2 * k) \<notin> img_id ` set (inbound_images st)"
    and "max_page_no inb st < page"
  shows "inbound_images (saveAll_body e inb k page cap st)
       = inbound_images st @ [new_image e inb k page cap]"
proof -
  have "\<not> (inbound_id y = inb \<and> page_no y = page)" if "y \<in> set (inbound_images st)" for y
    using page_le_max [OF that, of inb] assms(2) by auto
  then have free: "by_inbound_page_free (new_image e inb k page cap) (inbound_images st)"
    by (simp add: by_inbound_page_free_def list_ex_iff new_image_def)
  have "\<not> list_ex (\<lambda>y. img_id y = img_id (new_image e inb k page cap)) (inbound_images st)"
    using assms(1) by (auto simp: list_ex_iff new_image_def image_iff)
  with free show ?thesis
    by (simp add: saveAll_body_def addImage_def os_add_def)
qed

lemma max_page_no_snoc:
  assumes a: "inbound_images st' = inbound_images st @ [im]" and b: "inbound_id im = i"
  shows "max_page_no i st' = max (page_no im) (max_page_no i st)"
proof -
  have "{x \<in> set (inbound_images st'). inbound_id x = i}
      = insert im {x \<in> set (inbound_images st). inbound_id x = i}"
    using a b by auto
  then have "max_page_no i st' = Max (insert 0 (insert (page_no im) (page_no ` {x \<in> set (inbound_images st). inbound_id x = i})))"
    by (simp add: max_page_no_def)
  also have "\<dots> = Max (insert (page_no im) (insert 0 (page_no ` {x \<in> set (inbound_images st). inbound_id x = i})))"
    by (simp add: insert_commute)
  also have "\<dots> = max (page_no im) (max_page_no i st)"
    by (simp add: max_page_no_def)
  finally show ?thesis .
qed

lemma max_page_no_body:
  assumes "uuid e (2 * k) \<notin> img_id ` set (inbound_images st)"
    and "max_page_no inb st < page"
  shows "max_page_no inb (saveAll_body e inb k page cap st) = page"
  using max_page_no_snoc [OF body_images [OF assms, of cap] refl] assms(2)
  by (simp add: new_image_def)

lemma saveAll_loop_snoc:
  "saveAll_loop e inb k page (caps @ [cap]) st
   = saveAll_body e inb (k + length caps) (page + length caps + 1) cap
       (saveAll_loop e inb k page caps st)"
  by (induction caps arbitrary: k page st) simp_all

lemma img_ids_body:
  "img_id ` set (inbound_images (saveAll_body e inb k page cap st))
     \<subseteq> insert (uuid e (2 * k)) (img_id ` set (inbound_images st))"
  by (auto simp: saveAll_body_def addImage_def os_add_def new_image_def split: if_splits)

lemma img_ids_loop:
  "img_id ` set (inbound_images (saveAll_loop e inb k page caps st))
     \<subseteq> (\<lambda>j. uuid e (2 * j)) ` {k ..< k + length caps} \<union> img_id ` set (inbound_images st)"
proof (induction caps arbitrary: k page st)
  case Nil
  then show ?case by simp
next
  case (Cons cap caps)
  let ?f = "\<lambda>j. uuid e (2 * j)"
  let ?st = "saveAll_body e inb k (page + 1) cap st"
  have split: "{k..<k + length (cap # caps)} = insert k {k + 1..<k + 1 + length caps}"
    by auto
  have "img_id ` set (inbound_images (saveAll_loop e inb k page (cap # caps) st))
      \<subseteq> ?f ` {k + 1..<k + 1 + length caps} \<union> img_id ` set (inbound_images ?st)"
    using Cons.IH [of "k + 1" "page + 1" ?st] by simp
  also have "\<dots> \<subseteq> ?f ` {k + 1..<k + 1 + length caps}
       \<union> insert (?f k) (img_id ` set (inbound_images st))"
    using img_ids_body [of e inb k "page + 1" cap st] by blast
  also have "\<dots> = ?f ` {k..<k + length (cap # caps)} \<union> img_id ` set (inbound_images st)"
    unfolding split by blast
  finally show ?case .
qed


lemma fresh_after_loop:
  assumes "\<forall>k<n. uuid e (2 * k) \<notin> img_id ` set (inbound_images st)"
    and "inj_on (\<lambda>k. uuid e (2 * k)) {..<n}"
    and "length caps < n"
  shows "uuid e (2 * length caps) \<notin> img_id ` set (inbound_images (saveAll_loop e inb 0 page caps st))"
proof
  let ?f = "\<lambda>k. uuid e (2 * k)"
  assume "uuid e (2 * length caps) \<in> img_id ` set (inbound_images (saveAll_loop e inb 0 page caps st))"
  then have "?f (length caps) \<in> ?f ` {0..<0 + length caps} \<union> img_id ` set (inbound_images st)"
    using img_ids_loop [of e inb 0 page caps st] by blast
  then have "?f (length caps) \<in> ?f ` {0..<length caps}"
    using assms(1,3) by auto
  then obtain k where k: "k < length caps" "?f (length caps) = ?f k" by auto
  with assms(2,3) have "length caps = k"
    by (auto dest!: inj_onD [where x = "length caps" and y = k])
  with k show False by simp
qed

lemma max_page_no_loop:
  assumes "\<forall>k<n. uuid e (2 * k) \<notin> img_id ` set (inbound_images st)"
    and "inj_on (\<lambda>k. uuid e (2 * k)) {..<n}"
    and "length caps \<le> n"
  shows "max_page_no inb (saveAll_loop e inb 0 (max_page_no inb st) caps st)
       = max_page_no inb st + length caps"
  using assms(3)
proof (induction caps rule: rev_induct)
  case Nil
  then show ?case by simp
next
  case (snoc cap caps)
  let ?mid = "saveAll_loop e inb 0 (max_page_no inb st) caps st"
  from snoc have len: "length caps < n" by simp
  with snoc have mid: "max_page_no inb ?mid = max_page_no inb st + length caps" by simp
  have fresh: "uuid e (2 * length caps) \<notin> img_id ` set (inbound_images ?mid)"
    using fresh_after_loop [OF assms(1,2) len] .
  have "max_page_no inb (saveAll_body e inb (length caps) (max_page_no inb st + length caps + 1) cap ?mid)
      = max_page_no inb st + length caps + 1"
    using max_page_no_body [OF fresh, of inb "max_page_no inb st + length caps + 1" cap] mid by simp
  then show ?case by (simp add: saveAll_loop_snoc)
qed

lemma image_uuids_inj: "distinct (image_uuids e n) \<Longrightarrow> inj_on (\<lambda>k. uuid e (2 * k)) {..<n}"
  by (simp add: image_uuids_def distinct_map atLeast0LessThan)

lemma image_uuids_fresh:
  assumes "set (image_uuids e n) \<inter> img_id ` set (inbound_images st) = {}"
  shows "\<forall>k<n. uuid e (2 * k) \<notin> img_id ` set (inbound_images st)"
proof (intro allI impI)
  fix k assume "k < n"
  then have "uuid e (2 * k) \<in> set (image_uuids e n)"
    by (simp add: image_uuids_def)
  with assms show "uuid e (2 * k) \<notin> img_id ` set (inbound_images st)" by blast
qed

text \<open>
  Claim C2. The page a capture is attached as gets the page number one above
  the largest page number stored for the document at that moment (0 when it
  has none): stated for the \<open>j\<close>-th capture of a run of \<^verbatim>\<open>saveAll\<close>, between
  the state after \<open>j\<close> captures and the state after \<open>j + 1\<close>. The ids the
  environment draws are new and distinct.
\<close>

theorem saveAll_next_page_no:
  assumes j: "j < length (captures cam)"
    and dist: "distinct (image_uuids e (length (captures cam)))"
    and new: "set (image_uuids e (length (captures cam))) \<inter> img_id ` set (inbound_images st) = {}"
  shows "let before = snd (saveAll e (cam\<lparr>captures := take j (captures cam)\<rparr>) st);
             after = snd (saveAll e (cam\<lparr>captures := take (Suc j) (captures cam)\<rparr>) st)
         in \<exists>im. inbound_images after = inbound_images before @ [im] \<and>
                 inbound_id im = inboundId cam \<and>
                 img_blob im = cap_blob (captures cam ! j) \<and>
                 page_no im = max_page_no (inboundId cam) before + 1"
proof -
  let ?inb = "inboundId cam" and ?caps = "take j (captures cam)" and ?cap = "captures cam ! j"
  let ?m = "max_page_no ?inb st"
  let ?before = "saveAll_loop e ?inb 0 ?m ?caps st"
  let ?after = "saveAll_loop e ?inb 0 ?m (take (Suc j) (captures cam)) st"
  note inj = image_uuids_inj [OF dist] and fresh = image_uuids_fresh [OF new]
  have len: "length ?caps = j" using j by simp
  have before: "snd (saveAll e (cam\<lparr>captures := ?caps\<rparr>) st) = ?before"
    using saveAll_page_start [of ?inb st] by (simp add: saveAll_def Let_def)
  have after: "snd (saveAll e (cam\<lparr>captures := take (Suc j) (captures cam)\<rparr>) st) = ?after"
    using saveAll_page_start [of ?inb st] by (simp add: saveAll_def Let_def)
  have "take (Suc j) (captures cam) = ?caps @ [?cap]"
    using j by (simp add: take_Suc_conv_app_nth)
  then have step: "?after = saveAll_body e ?inb j (?m + j + 1) ?cap ?before"
    using len by (simp add: saveAll_loop_snoc)
  have m: "max_page_no ?inb ?before = ?m + j"
    using max_page_no_loop [OF fresh inj, of ?caps ?inb] len j by simp
  have "uuid e (2 * j) \<notin> img_id ` set (inbound_images ?before)"
    using fresh_after_loop [OF fresh inj, of ?caps ?inb ?m] len j by simp
  then have "inbound_images ?after = inbound_images ?before @ [new_image e ?inb j (?m + j + 1) ?cap]"
    using body_images [of e j ?before ?inb "?m + j + 1" ?cap] m step by simp
  then show ?thesis
    unfolding before after Let_def using m
    by (intro exI [of _ "new_image e ?inb j (?m + j + 1) ?cap"]) (simp add: new_image_def)
qed

theorem saveAll_next_page_no_witness:
  "map page_no (inbound_images (snd (saveAll env_a cam3 db1))) = [1, 2, 3] \<and>
   (let before = snd (saveAll env_a (cam3\<lparr>captures := take 2 (captures cam3)\<rparr>) db1);
        after = snd (saveAll env_a (cam3\<lparr>captures := take (Suc 2) (captures cam3)\<rparr>) db1)
    in \<exists>im. inbound_images after = inbound_images before @ [im] \<and>
            inbound_id im = inboundId cam3 \<and>
            img_blob im = cap_blob (captures cam3 ! 2) \<and>
            page_no im = max_page_no (inboundId cam3) before + 1)"
proof -
  have j: "2 < length (captures cam3)" by (simp add: cam3_def)
  have dist: "distinct (image_uuids env_a (length (captures cam3)))" by code_simp
  have new: "set (image_uuids env_a (length (captures cam3))) \<inter> img_id ` set (inbound_images db1) = {}"
    by (simp add: db1_def)
  have "map page_no (inbound_images (snd (saveAll env_a cam3 db1))) = [1, 2, 3]" by code_simp
  with saveAll_next_page_no [OF j dist new] show ?thesis by simp
qed

subsection \<open>Deleting a page: the handler of \<^verbatim>\<open>#btnDelete\<close>\<close>

text \<open>
  The example of the specification: of the pages 1, 2, 3 the second is selected
  in a view that was just opened and deleted; the two pages left are numbered
  1, 2.
\<close>

lemma btnDelete_example:
  "map (\<lambda>im. (img_id im, page_no im))
     (listImages ''doc-1''
        (snd (btnDelete env_c (thumb_click 1 (manageImages doc1 db_three_pages)) db_three_pages)))
   = [(''a-0'', 1), (''a-4'', 2)]"
  by code_simp


subsection \<open>Creating and updating documents\<close>


lemma inbound_docs_addLog [simp]: "inbound_docs (addLog e k a i j st) = inbound_docs st"
  by (simp add: addLog_def)












subsection \<open>The sync badge\<close>

lemma length_filter_disj:
  "(\<And>x. x \<in> set xs \<Longrightarrow> \<not> (A x \<and> B x)) \<Longrightarrow>
   length (filter (\<lambda>x. A x \<or> B x) xs) = length (filter A xs) + length (filter B xs)"
  by (induction xs) auto

lemma sum_over_docs:
  "distinct (map doc_id ds) \<Longrightarrow>
   sum_list (map (\<lambda>d. length (filter (\<lambda>i. P i \<and> inbound_id i = doc_id d) xs)) ds)
     = length (filter (\<lambda>i. P i \<and> inbound_id i \<in> doc_id ` set ds) xs)"
proof (induction ds)
  case Nil
  then show ?case by simp
next
  case (Cons d ds)
  have "length (filter (\<lambda>i. P i \<and> inbound_id i \<in> doc_id ` set (d # ds)) xs)
      = length (filter (\<lambda>i. (P i \<and> inbound_id i = doc_id d) \<or> (P i \<and> inbound_id i \<in> doc_id ` set ds)) xs)"
    by (rule arg_cong [where f = length], rule filter_cong) auto
  also have "\<dots> = length (filter (\<lambda>i. P i \<and> inbound_id i = doc_id d) xs)
                 + length (filter (\<lambda>i. P i \<and> inbound_id i \<in> doc_id ` set ds) xs)"
    using Cons.prems by (intro length_filter_disj) auto
  finally show ?case using Cons by simp
qed

lemma length_filter_listImages:
  "length (filter P (listImages i st)) = length (filter (\<lambda>y. P y \<and> inbound_id y = i) (inbound_images st))"
proof -
  have "mset (filter P (listImages i st)) = mset (filter (\<lambda>y. P y \<and> inbound_id y = i) (inbound_images st))"
    by (simp add: listImages_def filter_filter_mset conj_commute)
  then show ?thesis by (metis size_mset)
qed

lemma status_cases: "status d = ohne_zeichnung \<or> status d = mit_zeichnung"
  by (cases "status d") simp_all

lemma mset_all_docs:
  "mset (listInboundByStatus ohne_zeichnung st @ listInboundByStatus mit_zeichnung st)
     = mset (inbound_docs st)"
proof -
  let ?M = "mset (inbound_docs st)"
  have "filter_mset (\<lambda>d. status d = mit_zeichnung) ?M
      = filter_mset (\<lambda>d. \<not> status d = ohne_zeichnung) ?M"
    by (rule filter_mset_cong) (use status_cases in auto)
  then have "mset (listInboundByStatus ohne_zeichnung st @ listInboundByStatus mit_zeichnung st)
      = filter_mset (\<lambda>d. status d = ohne_zeichnung) ?M
      + filter_mset (\<lambda>d. \<not> status d = ohne_zeichnung) ?M"
    by (simp add: listInboundByStatus_def)
  then show ?thesis by simp
qed

lemma pending_of_mset: "mset ds = mset ds' \<Longrightarrow> pending_of ds st = pending_of ds' st"
proof -
  assume "mset ds = mset ds'"
  then have "mset (map (\<lambda>d. length (filter (\<lambda>i. \<not> synced i) (listImages (doc_id d) st))) ds)
           = mset (map (\<lambda>d. length (filter (\<lambda>i. \<not> synced i) (listImages (doc_id d) st))) ds')"
    by (metis mset_map)
  then show ?thesis
    unfolding pending_of_def by (metis sum_mset_sum_list)
qed

lemma pending_is_unsynced:
  assumes "docs_wf st"
  shows "pending_of (listInboundByStatus ohne_zeichnung st @ listInboundByStatus mit_zeichnung st) st
       = unsynced_pages st"
proof -
  have "pending_of (listInboundByStatus ohne_zeichnung st @ listInboundByStatus mit_zeichnung st) st
      = pending_of (inbound_docs st) st"
    by (rule pending_of_mset) (rule mset_all_docs)
  also have "\<dots> = unsynced_pages st"
    using sum_over_docs [of "inbound_docs st" "\<lambda>i. \<not> synced i" "inbound_images st"] assms
    by (simp add: pending_of_def unsynced_pages_def docs_wf_def length_filter_listImages)
  finally show ?thesis .
qed


lemma images_wf_same_key:
  assumes "images_wf st" "x \<in> set (inbound_images st)" "y \<in> set (inbound_images st)"
    and "inbound_id y = inbound_id x" "page_no y = page_no x"
  shows "y = x"
proof -
  have "inj_on (\<lambda>i. (inbound_id i, page_no i)) (set (inbound_images st))"
    using assms(1) by (simp add: images_wf_def distinct_map)
  then show ?thesis using assms(2-5) by (auto dest: inj_onD)
qed

lemma images_wf_same_id:
  assumes "images_wf st" "x \<in> set (inbound_images st)" "y \<in> set (inbound_images st)"
    and "img_id y = img_id x"
  shows "y = x"
proof -
  have "inj_on img_id (set (inbound_images st))"
    using assms(1) by (simp add: images_wf_def distinct_map)
  then show ?thesis using assms(2-4) by (auto dest: inj_onD)
qed

lemma putImage_synced:
  assumes wf: "images_wf st" and im: "im \<in> set (inbound_images st)"
  shows "putImage (im\<lparr>synced := True\<rparr>) st
       = st\<lparr>inbound_images := mark (\<lambda>y. img_id y = img_id im) (inbound_images st)\<rparr>"
proof -
  have free: "by_inbound_page_free (im\<lparr>synced := True\<rparr>) (inbound_images st)"
    using images_wf_same_key [OF wf im]
    by (auto simp: by_inbound_page_free_def list_ex_iff)
  have ex: "list_ex (\<lambda>y. img_id y = img_id (im\<lparr>synced := True\<rparr>)) (inbound_images st)"
    using im by (auto simp: list_ex_iff)
  have "map (\<lambda>y. if img_id y = img_id im then im\<lparr>synced := True\<rparr> else y) (inbound_images st)
      = mark (\<lambda>y. img_id y = img_id im) (inbound_images st)"
    unfolding mark_def
    using images_wf_same_id [OF wf im] by (intro map_cong) auto
  with free ex show ?thesis
    by (simp add: putImage_def os_put_def)
qed

lemma mark_keys [simp]:
  "map img_id (mark P xs) = map img_id xs"
  "map (\<lambda>i. (inbound_id i, page_no i)) (mark P xs) = map (\<lambda>i. (inbound_id i, page_no i)) xs"
  by (simp_all add: mark_def o_def)

lemma images_wf_mark:
  "images_wf st \<Longrightarrow> images_wf (st\<lparr>inbound_images := mark P (inbound_images st)\<rparr>)"
  by (simp add: images_wf_def)

lemma mark_mark:
  "(\<And>y. Q (y\<lparr>synced := True\<rparr>) = Q y) \<Longrightarrow>
   mark Q (mark P xs) = mark (\<lambda>y. P y \<or> Q y) xs"
  by (simp add: mark_def)

lemma mark_synced_noop:
  "(\<And>y. y \<in> set xs \<Longrightarrow> P y \<Longrightarrow> synced y) \<Longrightarrow> mark P xs = xs"
  unfolding mark_def by (induction xs) auto

lemma sync_images_mark:
  assumes "images_wf st" "distinct (map img_id ims)" "set ims \<subseteq> set (inbound_images st)"
  shows "sync_images ims st
       = st\<lparr>inbound_images := mark (\<lambda>y. img_id y \<in> img_id ` set ims) (inbound_images st)\<rparr>"
  using assms
proof (induction ims arbitrary: st)
  case Nil
  then show ?case by (simp add: mark_def)
next
  case (Cons im ims)
  let ?st = "st\<lparr>inbound_images := mark (\<lambda>y. img_id y = img_id im) (inbound_images st)\<rparr>"
  have im: "im \<in> set (inbound_images st)" using Cons.prems by simp
  have step: "(if \<not> synced im then putImage (im\<lparr>synced := True\<rparr>) st else st) = ?st"
  proof (cases "synced im")
    case True
    have "mark (\<lambda>y. img_id y = img_id im) (inbound_images st) = inbound_images st"
      using images_wf_same_id [OF Cons.prems(1) im] True
      by (intro mark_synced_noop) auto
    with True show ?thesis by simp
  next
    case False
    then show ?thesis using putImage_synced [OF Cons.prems(1) im] by simp
  qed
  have wf': "images_wf ?st" using Cons.prems(1) by (rule images_wf_mark)
  have sub: "set ims \<subseteq> set (inbound_images ?st)"
  proof
    fix y assume y: "y \<in> set ims"
    then have "img_id y \<noteq> img_id im" using Cons.prems(2) by (auto simp: image_iff)
    moreover have "y \<in> set (inbound_images st)" using y Cons.prems(3) by auto
    ultimately show "y \<in> set (inbound_images ?st)"
      by (auto simp: mark_def image_iff intro!: bexI [of _ y])
  qed
  have "sync_images (im # ims) st = sync_images ims ?st"
    using step by simp
  also have "\<dots> = ?st\<lparr>inbound_images := mark (\<lambda>y. img_id y \<in> img_id ` set ims) (inbound_images ?st)\<rparr>"
    using Cons.IH [OF wf' _ sub] Cons.prems(2) by simp
  also have "\<dots> = st\<lparr>inbound_images := mark (\<lambda>y. img_id y \<in> img_id ` set (im # ims)) (inbound_images st)\<rparr>"
    by (simp add: mark_mark)
  finally show ?case .
qed


lemma mark_cong: "(\<And>y. y \<in> set xs \<Longrightarrow> P y = Q y) \<Longrightarrow> mark P xs = mark Q xs"
  unfolding mark_def by (rule map_cong) auto

lemma distinct_ids_listImages:
  assumes "images_wf st"
  shows "distinct (map img_id (listImages i st))"
proof -
  have "distinct (map img_id (filter (\<lambda>im. inbound_id im = i) (inbound_images st)))"
    using assms by (simp add: images_wf_def distinct_map_filter)
  moreover have "mset (map img_id (listImages i st))
      = mset (map img_id (filter (\<lambda>im. inbound_id im = i) (inbound_images st)))"
    by (simp add: listImages_def)
  ultimately show ?thesis by (metis mset_eq_imp_distinct_iff)
qed

lemma sync_images_listImages:
  assumes wf: "images_wf st"
  shows "sync_images (listImages i st) st
       = st\<lparr>inbound_images := mark (\<lambda>y. inbound_id y = i) (inbound_images st)\<rparr>"
proof -
  have sub: "set (listImages i st) \<subseteq> set (inbound_images st)"
    by (auto simp: set_listImages)
  have "mark (\<lambda>y. img_id y \<in> img_id ` set (listImages i st)) (inbound_images st)
      = mark (\<lambda>y. inbound_id y = i) (inbound_images st)"
  proof (rule mark_cong)
    fix y assume y: "y \<in> set (inbound_images st)"
    show "(img_id y \<in> img_id ` set (listImages i st)) = (inbound_id y = i)"
    proof
      assume "img_id y \<in> img_id ` set (listImages i st)"
      then obtain z where z: "z \<in> set (inbound_images st)" "inbound_id z = i" "img_id y = img_id z"
        by (auto simp: set_listImages)
      then have "y = z" using images_wf_same_id [OF wf z(1) y] by simp
      with z show "inbound_id y = i" by simp
    next
      assume "inbound_id y = i"
      with y show "img_id y \<in> img_id ` set (listImages i st)"
        by (auto simp: set_listImages)
    qed
  qed
  then show ?thesis
    using sync_images_mark [OF wf distinct_ids_listImages [OF wf] sub] by simp
qed

lemma sync_docs_mark:
  "images_wf st \<Longrightarrow>
   sync_docs ds st
     = st\<lparr>inbound_images := mark (\<lambda>y. inbound_id y \<in> doc_id ` set ds) (inbound_images st)\<rparr>"
proof (induction ds arbitrary: st)
  case Nil
  then show ?case by (simp add: mark_def)
next
  case (Cons d ds)
  let ?st = "st\<lparr>inbound_images := mark (\<lambda>y. inbound_id y = doc_id d) (inbound_images st)\<rparr>"
  have "sync_docs (d # ds) st = sync_docs ds ?st"
    using sync_images_listImages [OF Cons.prems] by simp
  also have "\<dots> = ?st\<lparr>inbound_images := mark (\<lambda>y. inbound_id y \<in> doc_id ` set ds) (inbound_images ?st)\<rparr>"
    using Cons.IH [OF images_wf_mark [OF Cons.prems]] .
  also have "\<dots> = st\<lparr>inbound_images := mark (\<lambda>y. inbound_id y \<in> doc_id ` set (d # ds)) (inbound_images st)\<rparr>"
    by (simp add: mark_mark)
  finally show ?case .
qed

lemma set_all_docs:
  "set (listInboundByStatus ohne_zeichnung st @ listInboundByStatus mit_zeichnung st)
     = set (inbound_docs st)"
  using mset_all_docs [of st] by (metis set_mset_mset)

lemma unsynced_after_mark:
  "unsynced_pages (st\<lparr>inbound_images :=
      mark (\<lambda>y. inbound_id y \<in> doc_id ` set (inbound_docs st)) (inbound_images st)\<rparr>) = 0"
  by (auto simp: unsynced_pages_def mark_def filter_empty_conv)

text \<open>
  Claim C9. The number on the sync badge is the number of page records with
  \<^verbatim>\<open>synced: false\<close> that belong to the stored documents, in the database the call
  leaves; a call with \<^verbatim>\<open>auto\<close> set while the browser is online leaves none, and
  changes nothing else: the documents are the same, and the page records are
  the same up to their flag \<^verbatim>\<open>synced\<close>. The keys of the object stores and of the
  unique index are unique.
\<close>

theorem bumpSyncBadge_pending:
  assumes "docs_wf st" and "images_wf st"
  shows "fst (bumpSyncBadge auto online st) = unsynced_pages (snd (bumpSyncBadge auto online st)) \<and>
         fst (bumpSyncBadge False online st) = unsynced_pages st \<and>
         unsynced_pages (snd (bumpSyncBadge True True st)) = 0 \<and>
         inbound_docs (snd (bumpSyncBadge True True st)) = inbound_docs st \<and>
         map (\<lambda>i. i\<lparr>synced := True\<rparr>) (inbound_images (snd (bumpSyncBadge True True st)))
           = map (\<lambda>i. i\<lparr>synced := True\<rparr>) (inbound_images st)"
proof -
  let ?all = "listInboundByStatus ohne_zeichnung st @ listInboundByStatus mit_zeichnung st"
  let ?synced = "st\<lparr>inbound_images :=
      mark (\<lambda>y. inbound_id y \<in> doc_id ` set (inbound_docs st)) (inbound_images st)\<rparr>"
  have pending: "pending_of ?all st = unsynced_pages st"
    using assms(1) by (rule pending_is_unsynced)
  have pass: "sync_docs ?all st = ?synced"
    using sync_docs_mark [OF assms(2), of ?all] by (simp only: set_all_docs)
  have zero: "unsynced_pages ?synced = 0"
    by (rule unsynced_after_mark)
  have run: "bumpSyncBadge auto online st
      = (if auto \<and> online \<and> unsynced_pages st \<noteq> 0 then (0, ?synced) else (unsynced_pages st, st))"
    for auto online
    using pending pass by (simp add: bumpSyncBadge_def Let_def)
  have same: "map (\<lambda>i. i\<lparr>synced := True\<rparr>) (inbound_images ?synced)
      = map (\<lambda>i. i\<lparr>synced := True\<rparr>) (inbound_images st)"
    by (simp add: mark_def o_def if_distrib [of "\<lambda>i. i\<lparr>synced := True\<rparr>"] cong: if_cong)
  show ?thesis
    using zero same by (simp add: run)
qed


theorem bumpSyncBadge_pending_witness:
  "docs_wf db_three_pages \<and> images_wf db_three_pages \<and>
   fst (bumpSyncBadge False True db_three_pages) = 3 \<and>
   unsynced_pages db_three_pages = 3 \<and>
   fst (bumpSyncBadge True True db_three_pages) = 0 \<and>
   unsynced_pages (snd (bumpSyncBadge True True db_three_pages)) = 0 \<and>
   map (\<lambda>i. (img_id i, synced i)) (inbound_images (snd (bumpSyncBadge True True db_three_pages)))
     = [(''a-0'', True), (''a-2'', True), (''a-4'', True)]"
proof -
  have d: "docs_wf db_three_pages" by code_simp
  have i: "images_wf db_three_pages" by code_simp
  have n: "unsynced_pages db_three_pages = 3" by code_simp
  have m: "map (\<lambda>i. (img_id i, synced i)) (inbound_images (snd (bumpSyncBadge True True db_three_pages)))
     = [(''a-0'', True), (''a-2'', True), (''a-4'', True)]" by code_simp
  from bumpSyncBadge_pending [OF d i, of True True] bumpSyncBadge_pending [OF d i, of False True]
    d i n m
  show ?thesis by simp
qed

subsection \<open>Moving items on the board\<close>













lemma drop_qty_positive:
  "drop_qty ev item = Some q \<Longrightarrow> q < item_qty item \<Longrightarrow> 0 < q"
  by (auto simp: drop_qty_def Let_def split: if_splits)




subsection \<open>Rounding, and the size of the canvas\<close>



































end
